theory Spec2Isabelle
  imports Main "HOL-Library.Word"
begin

section \<open>Net entity common core: \<open>net_entity_base\<close>\<close>

text \<open>
  The class template \<open>net_entity_base<IOH>\<close> holds two members: the flag
  \<open>m_started\<close> (a \<open>std::atomic_bool\<close>) and the stored callback
  \<open>m_shutdown_change_cb\<close> (a \<open>std::function\<close>). A \<open>std::function\<close> is either
  empty or holds a callable, so the member is an option over the type \<open>'cb\<close> of
  callables. The constructor leaves the entity not started, with an empty callback.
  The argument of \<open>start\<close> is assigned to that member; what it may be (a lambda, a
  function pointer that may be null, a \<open>std::function\<close> that may be empty) is again
  empty or a callable, so \<open>start\<close> takes an option as well and stores it as it is.
\<close>

record 'cb net_entity_base =
  m_started :: bool
  m_shutdown_change_cb :: "'cb option"

definition net_entity_base_init :: "'cb net_entity_base" where
  "net_entity_base_init = \<lparr>m_started = False, m_shutdown_change_cb = None\<rparr>"

text \<open>
  \<open>std::atomic<bool>::compare_exchange_strong(expected, desired)\<close> as one indivisible
  step on the current value of the atomic: it yields whether the exchange happened and
  the value the atomic holds afterwards.
\<close>

definition compare_exchange_strong :: "bool \<Rightarrow> bool \<Rightarrow> bool \<Rightarrow> bool \<times> bool" where
  "compare_exchange_strong cur expected desired =
     (if cur = expected then (True, desired) else (False, cur))"

definition is_started :: "'cb net_entity_base \<Rightarrow> bool" where
  "is_started e = m_started e"

definition start :: "'cb net_entity_base \<Rightarrow> 'cb option \<Rightarrow> bool \<times> 'cb net_entity_base" where
  "start e shutdown_func =
     (let expected = False;
          (won, v) = compare_exchange_strong (m_started e) expected True;
          e1 = e\<lparr>m_started := v\<rparr>
      in if won then (True, e1\<lparr>m_shutdown_change_cb := shutdown_func\<rparr>)
         else (False, e1))"

definition stop :: "'cb net_entity_base \<Rightarrow> bool \<times> 'cb net_entity_base" where
  "stop e =
     (let expected = True;
          (won, v) = compare_exchange_strong (m_started e) expected False
      in (won, e\<lparr>m_started := v\<rparr>))"

text \<open>
  \<open>call_shutdown_change_cb(p, err, sz)\<close> invokes the stored callback on the handler
  reference, the error code and the count. The invocation is the observable effect, so
  it is the value returned; invoking an empty \<open>std::function\<close> throws
  \<open>std::bad_function_call\<close>.
\<close>

datatype entity_error = Bad_function_call

datatype ('cb, 'p, 'ec) invocation = Invoke 'cb 'p 'ec nat

definition call_shutdown_change_cb ::
  "'cb net_entity_base \<Rightarrow> 'p \<Rightarrow> 'ec \<Rightarrow> nat \<Rightarrow> entity_error + ('cb, 'p, 'ec) invocation" where
  "call_shutdown_change_cb e p err sz =
     (case m_shutdown_change_cb e of
        None \<Rightarrow> Inl Bad_function_call
      | Some f \<Rightarrow> Inr (Invoke f p err sz))"

text \<open>
  Calls on one entity, in the order in which their atomic steps take effect. The state
  threaded through a run is the entity together with the list of callback invocations
  made so far.
\<close>

datatype ('cb, 'p, 'ec) entity_call =
  Start "'cb option" | Stop | Call_shutdown_change_cb 'p 'ec nat

datatype entity_ret = Ret bool | Invoked | Threw entity_error

fun entity_step ::
  "('cb, 'p, 'ec) entity_call \<Rightarrow> 'cb net_entity_base \<times> ('cb, 'p, 'ec) invocation list
     \<Rightarrow> entity_ret \<times> 'cb net_entity_base \<times> ('cb, 'p, 'ec) invocation list" where
  "entity_step (Start f) (e, tr) = (Ret (fst (start e f)), snd (start e f), tr)"
| "entity_step Stop (e, tr) = (Ret (fst (stop e)), snd (stop e), tr)"
| "entity_step (Call_shutdown_change_cb p err sz) (e, tr) =
     (case call_shutdown_change_cb e p err sz of
        Inl x \<Rightarrow> (Threw x, e, tr)
      | Inr i \<Rightarrow> (Invoked, e, tr @ [i]))"

fun entity_run ::
  "('cb, 'p, 'ec) entity_call list \<Rightarrow> 'cb net_entity_base \<times> ('cb, 'p, 'ec) invocation list
     \<Rightarrow> entity_ret list \<times> 'cb net_entity_base \<times> ('cb, 'p, 'ec) invocation list" where
  "entity_run [] w = ([], w)"
| "entity_run (c # cs) w =
     (fst (entity_step c w) # fst (entity_run cs (snd (entity_step c w))),
      snd (entity_run cs (snd (entity_step c w))))"

text \<open>The number of calls of \<open>start\<close> in a run that returned true.\<close>

fun successful_starts :: "('cb, 'p, 'ec) entity_call list \<Rightarrow> entity_ret list \<Rightarrow> nat" where
  "successful_starts (Start f # cs) (Ret True # rs) = Suc (successful_starts cs rs)"
| "successful_starts (c # cs) (r # rs) = successful_starts cs rs"
| "successful_starts cs rs = 0"

text \<open>
  Concurrent callers of \<open>start\<close>. A thread inside \<open>start(f)\<close> is before its
  compare-and-set (\<open>At_cas\<close>), has won it and is before the assignment of the callback
  (\<open>At_store\<close>), or has returned. \<open>start_thread_step\<close> is one such step of one thread on
  the shared entity; \<open>interleave\<close> lets the scheduled thread take its next step, for
  every entry of a schedule (an entry that names no thread does nothing).
\<close>

datatype 'cb start_pc = At_cas "'cb option" | At_store "'cb option" | Returned bool

fun start_thread_step ::
  "'cb start_pc \<Rightarrow> 'cb net_entity_base \<Rightarrow> 'cb start_pc \<times> 'cb net_entity_base" where
  "start_thread_step (At_cas shutdown_func) e =
     (let expected = False;
          (won, v) = compare_exchange_strong (m_started e) expected True;
          e1 = e\<lparr>m_started := v\<rparr>
      in if won then (At_store shutdown_func, e1) else (Returned False, e1))"
| "start_thread_step (At_store shutdown_func) e =
     (Returned True, e\<lparr>m_shutdown_change_cb := shutdown_func\<rparr>)"
| "start_thread_step (Returned r) e = (Returned r, e)"

fun interleave ::
  "nat list \<Rightarrow> 'cb start_pc list \<times> 'cb net_entity_base
     \<Rightarrow> 'cb start_pc list \<times> 'cb net_entity_base" where
  "interleave [] w = w"
| "interleave (i # sched) (pcs, e) =
     (if i < length pcs
      then interleave sched
             (pcs[i := fst (start_thread_step (pcs ! i) e)],
              snd (start_thread_step (pcs ! i) e))
      else interleave sched (pcs, e))"

text \<open>
  A thread has won when its compare-and-set succeeded: it is about to store its callback,
  or has returned true.
\<close>

fun has_won :: "'cb start_pc \<Rightarrow> bool" where
  "has_won (At_cas f) = False"
| "has_won (At_store f) = True"
| "has_won (Returned r) = r"

definition winners :: "'cb start_pc list \<Rightarrow> nat" where
  "winners pcs = length (filter has_won pcs)"

text \<open>
  While no thread calls \<open>stop\<close>: no thread has won on an entity that is not started, and
  at most one has on a started one.
\<close>

definition one_winner :: "'cb start_pc list \<times> 'cb net_entity_base \<Rightarrow> bool" where
  "one_winner w = (winners (fst w) \<le> (if m_started (snd w) then 1 else 0))"

section \<open>Wait queue: \<open>wait_queue\<close>\<close>

text \<open>
  \<open>wait_queue<T, Container>\<close> with the default container \<open>std::deque<T>\<close>: the
  queued values as a list (front first) and the flag \<open>m_closed\<close>. The mutex and the
  condition variable carry no data; every method holds the mutex for its whole body, so
  each method is one step on the state.
\<close>

record 'a wait_queue =
  m_data_queue :: "'a list"
  m_closed :: bool

definition wait_queue_init :: "'a wait_queue" where
  "wait_queue_init = \<lparr>m_data_queue = [], m_closed = False\<rparr>"

definition wait_queue_range :: "'a list \<Rightarrow> 'a wait_queue" where
  "wait_queue_range xs = \<lparr>m_data_queue = xs, m_closed = False\<rparr>"

definition open_wq :: "'a wait_queue \<Rightarrow> 'a wait_queue" where
  "open_wq q = q\<lparr>m_closed := False\<rparr>"

definition close_wq :: "'a wait_queue \<Rightarrow> 'a wait_queue" where
  "close_wq q = q\<lparr>m_closed := True\<rparr>"

text \<open>The copying overload \<open>push(const T&)\<close>.\<close>

definition push :: "'a wait_queue \<Rightarrow> 'a \<Rightarrow> bool \<times> 'a wait_queue" where
  "push q val =
     (if m_closed q then (False, q)
      else (True, q\<lparr>m_data_queue := m_data_queue q @ [val]\<rparr>))"

text \<open>The moving overload \<open>push(T&&)\<close>: the same steps, the value moved into the queue.\<close>

definition push_move :: "'a wait_queue \<Rightarrow> 'a \<Rightarrow> bool \<times> 'a wait_queue" where
  "push_move q val =
     (if m_closed q then (False, q)
      else (True, q\<lparr>m_data_queue := m_data_queue q @ [val]\<rparr>))"

text \<open>
  \<open>wait_and_pop\<close> waits on the condition variable until the queue is closed or holds a
  value. While neither is the case the call does not return: the result is \<open>None\<close>.
  Where it returns, the result is the optional handed back and the new state.
\<close>

definition wait_and_pop :: "'a wait_queue \<Rightarrow> ('a option \<times> 'a wait_queue) option" where
  "wait_and_pop q =
     (if m_closed q \<or> m_data_queue q \<noteq> [] then
        Some (case m_data_queue q of
                [] \<Rightarrow> (None, q)
              | x # xs \<Rightarrow> (Some x, q\<lparr>m_data_queue := xs\<rparr>))
      else None)"

definition try_pop :: "'a wait_queue \<Rightarrow> 'a option \<times> 'a wait_queue" where
  "try_pop q =
     (case m_data_queue q of
        [] \<Rightarrow> (None, q)
      | x # xs \<Rightarrow> (Some x, q\<lparr>m_data_queue := xs\<rparr>))"

definition is_closed :: "'a wait_queue \<Rightarrow> bool" where
  "is_closed q = m_closed q"

definition empty_wq :: "'a wait_queue \<Rightarrow> bool" where
  "empty_wq q = (m_data_queue q = [])"

definition size_wq :: "'a wait_queue \<Rightarrow> nat" where
  "size_wq q = length (m_data_queue q)"

text \<open>
  Calls on one queue in the order in which they take the mutex. A \<open>wait_and_pop\<close> that
  finds the queue open and empty stays blocked and leaves the state as it is.
\<close>

datatype 'a wq_call = Open | Close | Push 'a | Push_move 'a | Wait_and_pop | Try_pop

fun wq_step :: "'a wq_call \<Rightarrow> 'a wait_queue \<Rightarrow> 'a wait_queue" where
  "wq_step Open q = open_wq q"
| "wq_step Close q = close_wq q"
| "wq_step (Push v) q = snd (push q v)"
| "wq_step (Push_move v) q = snd (push_move q v)"
| "wq_step Wait_and_pop q = (case wait_and_pop q of None \<Rightarrow> q | Some (r, q') \<Rightarrow> q')"
| "wq_step Try_pop q = snd (try_pop q)"

fun wq_run :: "'a wq_call list \<Rightarrow> 'a wait_queue \<Rightarrow> 'a wait_queue" where
  "wq_run [] q = q"
| "wq_run (c # cs) q = wq_run cs (wq_step c q)"

section \<open>Output queue and I/O base common core: \<open>output_queue\<close>, \<open>io_base\<close>\<close>

text \<open>
  The headers \<open>net_ip/detail/output_queue.hpp\<close> and \<open>net_ip/detail/io_base.hpp\<close> are
  not among the sources at hand; their test scenario \<open>io_base_test\<close> is. The
  definitions of this section follow the specification's description of the two
  components, with the names the test scenario uses. A buffer is its sequence of bytes;
  its size is the length of that sequence.
\<close>

type_synonym const_shared_buffer = "8 word list"

type_synonym 'e queue_element = "const_shared_buffer \<times> 'e option"

text \<open>
  Modelled from the spec: the class \<open>output_queue\<close> (header \<open>output_queue.hpp\<close> is
  missing). "FIFO of (buffer, optional endpoint) with byte/element stats", with "O(1) size
  and byte counters": the queued elements, head first, and a stored byte counter.
\<close>

record 'e output_queue =
  fifo :: "'e queue_element list"
  byte_counter :: nat

text \<open>
  Modelled from the spec: the result of \<open>get_output_queue_stats\<close>,
  "{ element_count, total_bytes }", under the member names that \<open>io_base_test\<close> reads.
\<close>

record output_queue_stats =
  output_queue_size :: nat
  bytes_in_output_queue :: nat

text \<open>
  Modelled from the spec: the constructor of \<open>output_queue\<close> (missing); a new queue is
  empty and counts no bytes, as \<open>io_base_test\<close> requires of a new \<open>io_base\<close>.
\<close>

definition output_queue_init :: "'e output_queue" where
  "output_queue_init = \<lparr>fifo = [], byte_counter = 0\<rparr>"

text \<open>
  Modelled from the spec: \<open>output_queue::get_queue_stats\<close> (missing); the element count
  and the byte counter, both read in constant time.
\<close>

definition get_queue_stats :: "'e output_queue \<Rightarrow> output_queue_stats" where
  "get_queue_stats oq =
     \<lparr>output_queue_size = length (fifo oq),
      bytes_in_output_queue = byte_counter oq\<rparr>"

text \<open>
  Modelled from the spec: \<open>output_queue::add_element\<close> (missing); "push-back" of the
  element, the byte counter raised by the size of the buffer.
\<close>

definition add_element ::
  "'e output_queue \<Rightarrow> const_shared_buffer \<Rightarrow> 'e option \<Rightarrow> 'e output_queue" where
  "add_element oq buf endp =
     \<lparr>fifo = fifo oq @ [(buf, endp)],
      byte_counter = byte_counter oq + length buf\<rparr>"

text \<open>
  Modelled from the spec: \<open>output_queue::get_next_element\<close> (missing); "pop-front": an
  empty queue yields nothing, otherwise the head is removed and handed back, and the
  byte counter lowered by the size of its buffer.
\<close>

definition outq_get_next_element ::
  "'e output_queue \<Rightarrow> 'e queue_element option \<times> 'e output_queue" where
  "outq_get_next_element oq =
     (case fifo oq of
        [] \<Rightarrow> (None, oq)
      | el # els \<Rightarrow>
          (Some el,
           \<lparr>fifo = els,
            byte_counter = byte_counter oq - length (fst el)\<rparr>))"

text \<open>
  Modelled from the spec: the class \<open>io_base\<close> (header \<open>io_base.hpp\<close> is missing), with
  the attributes \<open>io_started\<close>, \<open>write_in_progress\<close> and \<open>output_queue\<close> of an I/O
  handler.
\<close>

record 'e io_base =
  io_started :: bool
  write_in_progress :: bool
  output_queue :: "'e output_queue"

text \<open>
  Modelled from the spec: the constructor of \<open>io_base\<close> (missing); \<open>io_base_test\<close>
  requires of a new object that both flags are false and the queue statistics are zero.
\<close>

definition io_base_init :: "'e io_base" where
  "io_base_init =
     \<lparr>io_started = False, write_in_progress = False, output_queue = output_queue_init\<rparr>"

text \<open>Modelled from the spec: \<open>io_base::is_io_started\<close> (missing).\<close>

definition is_io_started :: "'e io_base \<Rightarrow> bool" where
  "is_io_started h = io_started h"

text \<open>Modelled from the spec: \<open>io_base::is_write_in_progress\<close> (missing).\<close>

definition is_write_in_progress :: "'e io_base \<Rightarrow> bool" where
  "is_write_in_progress h = write_in_progress h"

text \<open>
  Modelled from the spec: \<open>io_base::get_output_queue_stats\<close> (missing), the statistics
  of the handler's output queue.
\<close>

definition get_output_queue_stats :: "'e io_base \<Rightarrow> output_queue_stats" where
  "get_output_queue_stats h = get_queue_stats (output_queue h)"

text \<open>
  Modelled from the spec: \<open>io_base::set_io_started\<close> (missing); "transition
  false\<rightarrow>true; false if already started".
\<close>

definition set_io_started :: "'e io_base \<Rightarrow> bool \<times> 'e io_base" where
  "set_io_started h =
     (if io_started h then (False, h) else (True, h\<lparr>io_started := True\<rparr>))"

text \<open>
  Modelled from the spec: \<open>io_base::set_io_stopped\<close> (missing); "transition
  true\<rightarrow>false; false if already stopped".
\<close>

definition set_io_stopped :: "'e io_base \<Rightarrow> bool \<times> 'e io_base" where
  "set_io_stopped h =
     (if io_started h then (True, h\<lparr>io_started := False\<rparr>) else (False, h))"

text \<open>
  Modelled from the spec: \<open>io_base::start_write_setup\<close> (missing); "if not
  \<open>io_started\<close>, return false. Take lock. If \<open>write_in_progress\<close> is false, set it
  true, do not enqueue, return true. Otherwise append to the output queue and return
  false." The endpoint is optional: \<open>io_base_test\<close> calls the method with and without
  one.
\<close>

definition start_write_setup ::
  "'e io_base \<Rightarrow> const_shared_buffer \<Rightarrow> 'e option \<Rightarrow> bool \<times> 'e io_base" where
  "start_write_setup h buf endp =
     (if \<not> io_started h then (False, h)
      else if \<not> write_in_progress h then (True, h\<lparr>write_in_progress := True\<rparr>)
      else (False, h\<lparr>output_queue := add_element (output_queue h) buf endp\<rparr>))"

text \<open>
  Modelled from the spec: \<open>io_base::get_next_element\<close> (missing); "Under lock: if the
  queue is empty, set \<open>write_in_progress\<close> false and return empty; else dequeue the
  head and return it (leaving \<open>write_in_progress\<close> true)". The second branch does not
  write the flag.
\<close>

definition get_next_element :: "'e io_base \<Rightarrow> 'e queue_element option \<times> 'e io_base" where
  "get_next_element h =
     (case outq_get_next_element (output_queue h) of
        (None, oq) \<Rightarrow> (None, h\<lparr>write_in_progress := False\<rparr>)
      | (Some el, oq) \<Rightarrow> (Some el, h\<lparr>output_queue := oq\<rparr>))"

text \<open>
  Calls on one handler, in the order in which they take effect, and the state they
  leave.
\<close>

datatype 'e io_call =
  Set_io_started | Set_io_stopped
| Start_write_setup const_shared_buffer "'e option" | Get_next_element

fun io_step :: "'e io_call \<Rightarrow> 'e io_base \<Rightarrow> 'e io_base" where
  "io_step Set_io_started h = snd (set_io_started h)"
| "io_step Set_io_stopped h = snd (set_io_stopped h)"
| "io_step (Start_write_setup buf endp) h = snd (start_write_setup h buf endp)"
| "io_step Get_next_element h = snd (get_next_element h)"

fun io_run :: "'e io_call list \<Rightarrow> 'e io_base \<Rightarrow> 'e io_base" where
  "io_run [] h = h"
| "io_run (c # cs) h = io_run cs (io_step c h)"

text \<open>
  \<open>chops::repeat(n, f)\<close> of the utility library calls \<open>f\<close> \<open>n\<close> times; on a state
  transformer that is its \<open>n\<close>-fold application.
\<close>

primrec repeat :: "nat \<Rightarrow> ('s \<Rightarrow> 's) \<Rightarrow> 's \<Rightarrow> 's" where
  "repeat 0 f s = s"
| "repeat (Suc n) f s = repeat n f (f s)"

text \<open>The sum of the sizes of the buffers held in a queue.\<close>

definition queued_bytes :: "'e queue_element list \<Rightarrow> nat" where
  "queued_bytes els = sum_list (map (\<lambda>el. length (fst el)) els)"

text \<open>
  \<open>drain n h\<close> calls \<open>get_next_element\<close> \<open>n\<close> times in a row, as the write loop does
  on successive write completions, and collects what the calls returned.
\<close>

fun drain :: "nat \<Rightarrow> 'e io_base \<Rightarrow> 'e queue_element option list \<times> 'e io_base" where
  "drain 0 h = ([], h)"
| "drain (Suc n) h =
     (fst (get_next_element h) # fst (drain n (snd (get_next_element h))),
      snd (drain n (snd (get_next_element h))))"

text \<open>The two state invariants of a handler.\<close>

definition write_queue_inv :: "'e io_base \<Rightarrow> bool" where
  "write_queue_inv h = (write_in_progress h \<or> fifo (output_queue h) = [])"

definition byte_counter_inv :: "'e io_base \<Rightarrow> bool" where
  "byte_counter_inv h =
     (byte_counter (output_queue h) = queued_bytes (fifo (output_queue h)))"

text \<open>
  The data of the scenario "Io base test": the five bytes \<open>0x20 .. 0x24\<close>, and the
  handler of \<open>io_base_test\<close> after \<open>set_io_started\<close>. The endpoint type of \<open>io_mock\<close> is
  a number; the scenario passes 42.
\<close>

definition test_buf :: const_shared_buffer where
  "test_buf = [0x20, 0x21, 0x22, 0x23, 0x24]"

definition test_endp :: "int option" where
  "test_endp = Some 42"

definition test_started :: "int io_base" where
  "test_started = snd (set_io_started io_base_init)"

section \<open>Properties of \<open>net_entity_base\<close>\<close>

text \<open>
  The two outcomes of \<open>start\<close> and of \<open>stop\<close>, by the value of the flag when the
  compare-and-set takes effect.
\<close>

lemma start_when_stopped:
  "\<not> m_started e \<Longrightarrow>
     start e f = (True, e\<lparr>m_started := True, m_shutdown_change_cb := f\<rparr>)"
  by (simp add: start_def compare_exchange_strong_def)

lemma start_when_started: "m_started e \<Longrightarrow> start e f = (False, e)"
  by (simp add: start_def compare_exchange_strong_def)

lemma stop_when_started: "m_started e \<Longrightarrow> stop e = (True, e\<lparr>m_started := False\<rparr>)"
  by (simp add: stop_def compare_exchange_strong_def)

lemma stop_when_stopped: "\<not> m_started e \<Longrightarrow> stop e = (False, e)"
  by (simp add: stop_def compare_exchange_strong_def)

text \<open>
  A call other than \<open>stop\<close> leaves a started entity started, so that in a run without
  \<open>stop\<close> no \<open>start\<close> wins on a started entity.
\<close>

lemma step_keeps_started:
  assumes "m_started e" and "c \<noteq> Stop"
  shows "m_started (fst (snd (entity_step c (e, tr))))"
proof (cases c)
  case (Start f)
  with assms show ?thesis by (simp add: start_when_started)
next
  case Stop
  with assms show ?thesis by simp
next
  case (Call_shutdown_change_cb p err sz)
  with assms show ?thesis by (simp split: sum.split)
qed

lemma no_wins_when_started:
  "m_started e \<Longrightarrow> Stop \<notin> set cs \<Longrightarrow>
     successful_starts cs (fst (entity_run cs (e, tr))) = 0"
proof (induction cs arbitrary: e tr)
  case Nil
  show ?case by simp
next
  case (Cons c cs)
  from Cons.prems have ne: "c \<noteq> Stop" and rest: "Stop \<notin> set cs" by auto
  obtain r e' tr' where st: "entity_step c (e, tr) = (r, e', tr')"
    by (cases "entity_step c (e, tr)") auto
  from step_keeps_started [OF Cons.prems(1) ne, of tr] st have "m_started e'" by simp
  from Cons.IH [OF this rest] have ih: "successful_starts cs (fst (entity_run cs (e', tr'))) = 0" .
  have "r \<noteq> Ret True \<or> (\<forall>f. c \<noteq> Start f)"
    using st Cons.prems(1) by (cases c) (auto simp: start_when_started)
  then show ?case using st ih
    by (cases c; cases r) auto
qed

lemma at_most_one_win:
  "Stop \<notin> set cs \<Longrightarrow> successful_starts cs (fst (entity_run cs (e, tr))) \<le> 1"
proof (induction cs arbitrary: e tr)
  case Nil
  show ?case by simp
next
  case (Cons c cs)
  from Cons.prems have ne: "c \<noteq> Stop" and rest: "Stop \<notin> set cs" by auto
  show ?case
  proof (cases "m_started e")
    case True
    from no_wins_when_started [OF True Cons.prems] show ?thesis by simp
  next
    case False
    show ?thesis
    proof (cases c)
      case (Start f)
      have "m_started (snd (start e f))" using False by (simp add: start_when_stopped)
      from no_wins_when_started [OF this rest]
      show ?thesis using Start False by (simp add: start_when_stopped)
    next
      case Stop
      with ne show ?thesis by simp
    next
      case (Call_shutdown_change_cb p err sz)
      then show ?thesis using Cons.IH [OF rest]
        by (simp split: sum.split)
    qed
  qed
qed

text \<open>
  Concurrent callers: the two steps of one thread, taken back to back, are the call
  \<open>start\<close>; and however the steps of the threads interleave, at most one thread wins.
\<close>

lemma start_is_two_steps:
  "start_thread_step (fst (start_thread_step (At_cas f) e)) (snd (start_thread_step (At_cas f) e)) =
     (Returned (fst (start e f)), snd (start e f))"
  by (simp add: start_def compare_exchange_strong_def)

lemma winners_update:
  "i < length pcs \<Longrightarrow>
     winners (pcs[i := pc]) + (if has_won (pcs ! i) then 1 else 0) =
     winners pcs + (if has_won pc then 1 else 0)"
proof (induction pcs arbitrary: i)
  case Nil
  then show ?case by simp
next
  case (Cons p ps)
  show ?case
  proof (cases i)
    case 0
    then show ?thesis by (simp add: winners_def)
  next
    case (Suc j)
    with Cons.prems have "j < length ps" by simp
    from Cons.IH [OF this] Suc show ?thesis by (simp add: winners_def)
  qed
qed

lemma one_winner_step:
  assumes "one_winner (pcs, e)" and "i < length pcs"
  shows "one_winner (pcs[i := fst (start_thread_step (pcs ! i) e)],
                     snd (start_thread_step (pcs ! i) e))"
proof (cases "pcs ! i")
  case (At_cas f)
  show ?thesis
  proof (cases "m_started e")
    case True
    with At_cas have s: "start_thread_step (pcs ! i) e = (Returned False, e)"
      by (simp add: compare_exchange_strong_def)
    from winners_update [OF assms(2), of "Returned False"] At_cas
    have "winners (pcs[i := Returned False]) = winners pcs" by simp
    with assms(1) s show ?thesis by (simp add: one_winner_def)
  next
    case False
    with At_cas have s: "start_thread_step (pcs ! i) e = (At_store f, e\<lparr>m_started := True\<rparr>)"
      by (simp add: compare_exchange_strong_def)
    from assms(1) False have "winners pcs = 0" by (simp add: one_winner_def)
    with winners_update [OF assms(2), of "At_store f"] At_cas
    have "winners (pcs[i := At_store f]) = 1" by simp
    with s show ?thesis by (simp add: one_winner_def)
  qed
next
  case (At_store f)
  then have s: "start_thread_step (pcs ! i) e = (Returned True, e\<lparr>m_shutdown_change_cb := f\<rparr>)"
    by simp
  from winners_update [OF assms(2), of "Returned True"] At_store
  have "winners (pcs[i := Returned True]) = winners pcs" by simp
  with assms(1) s show ?thesis by (simp add: one_winner_def)
next
  case (Returned r)
  then have s: "start_thread_step (pcs ! i) e = (Returned r, e)" by simp
  from Returned have "pcs[i := Returned r] = pcs" by (metis list_update_id)
  with assms(1) s show ?thesis by simp
qed

lemma one_winner_interleave: "one_winner w \<Longrightarrow> one_winner (interleave sched w)"
proof (induction sched arbitrary: w)
  case Nil
  then show ?case by simp
next
  case (Cons i sched)
  obtain pcs e where w: "w = (pcs, e)" by (cases w)
  show ?case
  proof (cases "i < length pcs")
    case True
    from one_winner_step [OF Cons.prems [unfolded w] True]
    show ?thesis using w True by (simp add: Cons.IH)
  next
    case False
    with Cons w show ?thesis by simp
  qed
qed

lemma winners_initial: "winners (map At_cas fs) = 0"
  by (induction fs) (simp_all add: winners_def)

lemma concurrent_starts_one_winner:
  "winners (fst (interleave sched (map At_cas fs, e))) \<le> 1"
proof -
  have "one_winner (map At_cas fs, e)" by (simp add: one_winner_def winners_initial)
  from one_winner_interleave [OF this, of sched] show ?thesis
    by (simp add: one_winner_def split: if_splits)
qed

text \<open>
  Claim C1. A \<open>start\<close> on an entity that is not started sets the flag by its
  compare-and-set, stores the callback it was given and returns true. A \<open>start\<close> on an
  entity that is already started returns false and leaves the entity, and with it the
  stored callback, as it was. In every sequence of calls that holds no \<open>stop\<close>, whatever
  the state it begins in, at most one \<open>start\<close> returns true. The calls are taken in the
  order of their compare-and-set steps, each of which is indivisible: a call is the
  compare-and-set of its thread followed by the assignment of the callback, and among
  any number of threads that call \<open>start\<close> concurrently, under every schedule of their
  steps, at most one wins.
\<close>

theorem start_wins_once:
  "(\<not> m_started e \<longrightarrow>
      start e f = (True, e\<lparr>m_started := True, m_shutdown_change_cb := f\<rparr>)) \<and>
   (m_started e \<longrightarrow> start e f = (False, e)) \<and>
   (Stop \<notin> set cs \<longrightarrow> successful_starts cs (fst (entity_run cs (e, tr))) \<le> 1) \<and>
   start_thread_step (fst (start_thread_step (At_cas f) e))
       (snd (start_thread_step (At_cas f) e)) =
     (Returned (fst (start e f)), snd (start e f)) \<and>
   winners (fst (interleave sched (map At_cas fs, e))) \<le> 1"
  using start_when_stopped [of e f] start_when_started [of e f] at_most_one_win [of cs e tr]
    start_is_two_steps [of f e] concurrent_starts_one_winner [of sched fs e]
  by blast

text \<open>
  The theorem at a new entity, at a started one, on a run of three \<open>start\<close>s, and on
  three threads of which the second is scheduled first; that thread wins, and its
  callback is the one stored.
\<close>

theorem start_wins_once_witness:
  "start (net_entity_base_init :: nat net_entity_base) (Some 1) =
     (True, \<lparr>m_started = True, m_shutdown_change_cb = Some 1\<rparr>) \<and>
   start \<lparr>m_started = True, m_shutdown_change_cb = Some (1::nat)\<rparr> (Some 2) =
     (False, \<lparr>m_started = True, m_shutdown_change_cb = Some 1\<rparr>) \<and>
   successful_starts
     [Start (Some (1::nat)), Start (Some 2), Call_shutdown_change_cb (0::nat) (0::nat) 0, Start None]
     (fst (entity_run
        [Start (Some (1::nat)), Start (Some 2), Call_shutdown_change_cb (0::nat) (0::nat) 0,
         Start None]
        (net_entity_base_init, []))) \<le> 1 \<and>
   winners (fst (interleave [1, 0, 1, 2, 0]
     (map At_cas [Some (1::nat), Some 2, None], net_entity_base_init))) \<le> 1"
proof -
  let ?e = "net_entity_base_init :: nat net_entity_base"
  let ?e1 = "\<lparr>m_started = True, m_shutdown_change_cb = Some (1::nat)\<rparr>"
  let ?cs = "[Start (Some (1::nat)), Start (Some 2), Call_shutdown_change_cb (0::nat) (0::nat) 0,
              Start None]"
  have h1: "\<not> m_started ?e" by (simp add: net_entity_base_init_def)
  have h2: "m_started ?e1" by simp
  have h3: "Stop \<notin> set ?cs" by simp
  from start_wins_once [where e = ?e and f = "Some 1" and cs = ?cs
      and tr = "[] :: (nat, nat, nat) invocation list"
      and sched = "[1, 0, 1, 2, 0]" and fs = "[Some 1, Some 2, None]"] h1 h3
  have a: "start ?e (Some 1) =
             (True, ?e\<lparr>m_started := True, m_shutdown_change_cb := Some 1\<rparr>)"
    and c: "successful_starts ?cs (fst (entity_run ?cs (?e, []))) \<le> 1"
    and d: "winners (fst (interleave [1, 0, 1, 2, 0]
              (map At_cas [Some (1::nat), Some 2, None], ?e))) \<le> 1"
    by blast+
  from start_wins_once [where e = ?e1 and f = "Some 2" and cs = "[]"
      and tr = "[] :: (nat, nat, nat) invocation list" and sched = "[]" and fs = "[]"] h2
  have b: "start ?e1 (Some 2) = (False, ?e1)" by blast
  from a have a': "start ?e (Some 1) = (True, ?e1)" by (simp add: net_entity_base_init_def)
  from a' b c d show ?thesis by blast
qed

lemma interleave_example:
  "interleave [1, 0, 1, 2, 0]
     (map At_cas [Some (1::nat), Some 2, None], net_entity_base_init) =
     ([Returned False, Returned True, Returned False],
      \<lparr>m_started = True, m_shutdown_change_cb = Some 2\<rparr>)"
  by (simp add: net_entity_base_init_def compare_exchange_strong_def)

text \<open>
  Claim C6. \<open>stop\<close> returns the value the flag had: true on a started entity, which it
  leaves not started, and false on a stopped one, which it leaves as it was. It makes no
  callback invocation: the list of invocations is the same after the call, and the only
  call that extends that list is \<open>call_shutdown_change_cb\<close>.
\<close>

theorem stop_cas:
  "fst (stop e) = m_started e \<and>
   \<not> m_started (snd (stop e)) \<and>
   (m_started e \<longrightarrow> stop e = (True, e\<lparr>m_started := False\<rparr>)) \<and>
   (\<not> m_started e \<longrightarrow> stop e = (False, e)) \<and>
   snd (snd (entity_step Stop (e, tr))) = tr \<and>
   ((\<forall>p err sz. c \<noteq> Call_shutdown_change_cb p err sz) \<longrightarrow>
      snd (snd (entity_step c (e, tr))) = tr)"
proof -
  have "snd (snd (entity_step c (e, tr))) = tr"
    if "\<forall>p err sz. c \<noteq> Call_shutdown_change_cb p err sz"
    using that by (cases c) simp_all
  then show ?thesis
    using stop_when_started [of e] stop_when_stopped [of e]
    by (cases "m_started e") simp_all
qed

text \<open>
  The theorem at a started and at a stopped entity, and for a \<open>start\<close> as the call
  that makes no invocation.
\<close>

theorem stop_cas_witness:
  "stop \<lparr>m_started = True, m_shutdown_change_cb = Some (1::nat)\<rparr> =
     (True, \<lparr>m_started = False, m_shutdown_change_cb = Some 1\<rparr>) \<and>
   stop \<lparr>m_started = False, m_shutdown_change_cb = Some (1::nat)\<rparr> =
     (False, \<lparr>m_started = False, m_shutdown_change_cb = Some 1\<rparr>) \<and>
   snd (snd (entity_step (Start (Some 2))
     (\<lparr>m_started = True, m_shutdown_change_cb = Some (1::nat)\<rparr>, [Invoke 1 (0::nat) (0::nat) 0]))) =
     [Invoke 1 0 0 0]"
  using stop_cas [of "\<lparr>m_started = True, m_shutdown_change_cb = Some (1::nat)\<rparr>"
      "[Invoke 1 (0::nat) (0::nat) 0]" "Start (Some 2)"]
    stop_cas [of "\<lparr>m_started = False, m_shutdown_change_cb = Some (1::nat)\<rparr>"
      "[Invoke 1 (0::nat) (0::nat) 0]" "Start (Some 2)"]
  by simp

text \<open>
  Claim C7, as amended. A winning \<open>start\<close> stores the callback it was given, and
  \<open>stop\<close> does not clear it: \<open>stop\<close> writes the flag only and leaves the stored
  callback as it was, so after a \<open>stop\<close> that returned true the entity still holds the
  callback of the winning \<open>start\<close>.
\<close>

theorem stop_keeps_callback:
  "(\<not> m_started e \<longrightarrow> m_shutdown_change_cb (snd (start e f)) = f) \<and>
   m_shutdown_change_cb (snd (stop e)) = m_shutdown_change_cb e \<and>
   (\<not> m_started e \<longrightarrow>
      fst (stop (snd (start e f))) = True \<and>
      m_shutdown_change_cb (snd (stop (snd (start e f)))) = f)"
proof -
  have keep: "m_shutdown_change_cb (snd (stop e')) = m_shutdown_change_cb e'" for e' :: "'a net_entity_base"
    by (cases "m_started e'") (simp_all add: stop_when_started stop_when_stopped)
  have "fst (stop (snd (start e f))) = True \<and>
        m_shutdown_change_cb (snd (stop (snd (start e f)))) = f" if "\<not> m_started e"
    using that keep [of "snd (start e f)"]
    by (simp add: start_when_stopped stop_when_started)
  then show ?thesis using keep [of e]
    by (simp add: start_when_stopped)
qed

text \<open>
  The theorem at a new entity and the callback 1, and at an empty callback.
\<close>

theorem stop_keeps_callback_witness:
  "m_shutdown_change_cb (snd (start net_entity_base_init (Some (1::nat)))) = Some 1 \<and>
   fst (stop (snd (start net_entity_base_init (Some (1::nat))))) = True \<and>
   m_shutdown_change_cb (snd (stop (snd (start net_entity_base_init (Some (1::nat)))))) = Some 1 \<and>
   m_shutdown_change_cb (snd (stop (snd (start net_entity_base_init (None :: nat option))))) = None"
proof -
  have h: "\<not> m_started (net_entity_base_init :: nat net_entity_base)"
    by (simp add: net_entity_base_init_def)
  from stop_keeps_callback [of "net_entity_base_init :: nat net_entity_base" "Some 1"]
    stop_keeps_callback [of "net_entity_base_init :: nat net_entity_base" None] h
  show ?thesis by blast
qed

text \<open>
  Claim C7 as it is written says that the callback is empty once \<open>stop\<close> has
  returned true. On a new entity, \<open>start\<close> with callback 1 and then \<open>stop\<close>: the
  \<open>stop\<close> returns true and the entity holds callback 1.
\<close>

theorem stop_clears_callback_counterexample:
  "fst (stop (snd (start net_entity_base_init (Some (1::nat))))) = True \<and>
   m_shutdown_change_cb (snd (stop (snd (start net_entity_base_init (Some (1::nat)))))) = Some 1"
  by (simp add: net_entity_base_init_def start_def stop_def compare_exchange_strong_def)

text \<open>
  What \<open>call_shutdown_change_cb\<close> does after \<open>start\<close> and \<open>stop\<close>: it invokes the
  callback that the winning \<open>start\<close> stored, and throws when that was an empty one.
\<close>

lemma call_after_stop:
  "\<not> m_started e \<Longrightarrow>
     call_shutdown_change_cb (snd (stop (snd (start e f)))) p err sz =
       (case f of None \<Rightarrow> Inl Bad_function_call | Some g \<Rightarrow> Inr (Invoke g p err sz))"
  by (simp add: start_def stop_def compare_exchange_strong_def call_shutdown_change_cb_def)

section \<open>Properties of \<open>wait_queue\<close>\<close>

lemma push_closed: "m_closed q \<Longrightarrow> push q v = (False, q)"
  by (simp add: push_def)

lemma push_move_closed: "m_closed q \<Longrightarrow> push_move q v = (False, q)"
  by (simp add: push_move_def)

lemma step_keeps_closed: "m_closed q \<Longrightarrow> c \<noteq> Open \<Longrightarrow> m_closed (wq_step c q)"
  by (cases c)
    (simp_all add: close_wq_def push_def push_move_def wait_and_pop_def try_pop_def
      split: list.split)

lemma run_keeps_closed: "m_closed q \<Longrightarrow> Open \<notin> set cs \<Longrightarrow> m_closed (wq_run cs q)"
proof (induction cs arbitrary: q)
  case Nil
  then show ?case by simp
next
  case (Cons c cs)
  from Cons.prems have "c \<noteq> Open" and rest: "Open \<notin> set cs" by auto
  with Cons.prems(1) have "m_closed (wq_step c q)" by (simp add: step_keeps_closed)
  from Cons.IH [OF this rest] show ?case by simp
qed

lemma closed_after_close: "m_closed (close_wq q)"
  by (simp add: close_wq_def)

text \<open>
  Claim C8, as amended. Once \<open>close\<close> has returned, every \<open>push\<close>, copying or moving,
  that comes before the next \<open>open\<close> fails: after any calls other than \<open>open\<close>, the
  \<open>push\<close> returns false and leaves the queue as it was.
\<close>

theorem push_fails_until_open:
  "Open \<notin> set cs \<Longrightarrow>
     push (wq_run cs (close_wq q)) v = (False, wq_run cs (close_wq q)) \<and>
     push_move (wq_run cs (close_wq q)) v = (False, wq_run cs (close_wq q))"
  using run_keeps_closed [OF closed_after_close, of cs q]
  by (simp add: push_closed push_move_closed)

theorem push_fails_until_open_witness:
  "push (wq_run [Push 3, Try_pop, Wait_and_pop, Push_move 4] (close_wq (wait_queue_range [1, 2::nat]))) 5
     = (False, \<lparr>m_data_queue = [], m_closed = True\<rparr>) \<and>
   push_move (wq_run [Push 3, Try_pop, Wait_and_pop, Push_move 4] (close_wq (wait_queue_range [1, 2::nat]))) 5
     = (False, \<lparr>m_data_queue = [], m_closed = True\<rparr>)"
proof -
  let ?cs = "[Push 3, Try_pop, Wait_and_pop, Push_move (4::nat)]"
  have h: "Open \<notin> set ?cs" by simp
  have r: "wq_run ?cs (close_wq (wait_queue_range [1, 2::nat])) = \<lparr>m_data_queue = [], m_closed = True\<rparr>"
    by (simp add: close_wq_def wait_queue_range_def push_def push_move_def try_pop_def
        wait_and_pop_def)
  from push_fails_until_open [OF h, of "wait_queue_range [1, 2::nat]" 5]
  show ?thesis unfolding r .
qed

text \<open>
  Claim C8 as it is written speaks of every \<open>push\<close> after \<open>close\<close>. On a new queue,
  \<open>close\<close>, \<open>open\<close> and then \<open>push\<close> of 1: the \<open>push\<close> returns true and the queue
  holds 1.
\<close>

theorem push_after_close_counterexample:
  "push (open_wq (close_wq wait_queue_init)) (1::nat) =
     (True, \<lparr>m_data_queue = [1], m_closed = False\<rparr>)"
  by (simp add: push_def open_wq_def close_wq_def wait_queue_init_def)

text \<open>
  Claim C9, as amended. On a closed queue \<open>wait_and_pop\<close> returns without blocking.
  It returns an empty optional when the queue is empty at the time of the call; when
  values remain it removes the head of the queue and returns it.
\<close>

theorem wait_and_pop_closed:
  "m_closed q \<Longrightarrow>
     (m_data_queue q = [] \<longrightarrow> wait_and_pop q = Some (None, q)) \<and>
     (\<forall>x xs. m_data_queue q = x # xs \<longrightarrow>
        wait_and_pop q = Some (Some x, q\<lparr>m_data_queue := xs\<rparr>))"
  by (simp add: wait_and_pop_def)

theorem wait_and_pop_closed_witness:
  "wait_and_pop \<lparr>m_data_queue = [], m_closed = True\<rparr> =
     Some (None :: nat option, \<lparr>m_data_queue = [], m_closed = True\<rparr>) \<and>
   wait_and_pop \<lparr>m_data_queue = [7, 8::nat], m_closed = True\<rparr> =
     Some (Some 7, \<lparr>m_data_queue = [8], m_closed = True\<rparr>)"
proof -
  have a: "m_closed \<lparr>m_data_queue = [] :: nat list, m_closed = True\<rparr>" by simp
  have b: "m_closed \<lparr>m_data_queue = [7, 8::nat], m_closed = True\<rparr>" by simp
  show ?thesis
    using wait_and_pop_closed [OF a] wait_and_pop_closed [OF b] by simp
qed

text \<open>
  Claim C9 as it is written has an empty optional also when values remain. On a new
  queue, \<open>push\<close> of 7 and then \<open>close\<close>: \<open>wait_and_pop\<close> returns 7.
\<close>

theorem wait_and_pop_closed_counterexample:
  "wait_and_pop (close_wq (snd (push wait_queue_init (7::nat)))) =
     Some (Some 7, \<lparr>m_data_queue = [], m_closed = True\<rparr>)"
  by (simp add: wait_and_pop_def push_def close_wq_def wait_queue_init_def)

text \<open>
  Claim C10. \<open>open\<close> re-enables a closed queue: a \<open>push\<close>, copying or moving, after
  \<open>close\<close> and \<open>open\<close> returns true and appends its value to the queue, and so does a
  \<open>push\<close> after \<open>open\<close> whatever calls came between \<open>close\<close> and \<open>open\<close>.
\<close>

theorem open_reenables_push:
  "is_closed (close_wq q) \<and>
   push (open_wq (close_wq q)) v =
     (True, \<lparr>m_data_queue = m_data_queue q @ [v], m_closed = False\<rparr>) \<and>
   push_move (open_wq (close_wq q)) v =
     (True, \<lparr>m_data_queue = m_data_queue q @ [v], m_closed = False\<rparr>) \<and>
   fst (push (open_wq (wq_run cs (close_wq q))) v) = True \<and>
   m_data_queue (snd (push (open_wq (wq_run cs (close_wq q))) v)) =
     m_data_queue (wq_run cs (close_wq q)) @ [v]"
  by (simp add: is_closed_def push_def push_move_def open_wq_def close_wq_def)

section \<open>Properties of \<open>io_base\<close>\<close>

text \<open>
  The scenario \<open>io_base_test\<close> with twenty buffers, as it is run by "Io base test":
  each of its requirements holds of the definitions above.
\<close>

lemma io_base_test_given:
  "get_output_queue_stats (io_base_init :: int io_base) =
     \<lparr>output_queue_size = 0, bytes_in_output_queue = 0\<rparr> \<and>
   \<not> is_io_started (io_base_init :: int io_base) \<and>
   \<not> is_write_in_progress (io_base_init :: int io_base)"
  by (simp add: get_output_queue_stats_def get_queue_stats_def io_base_init_def
      output_queue_init_def is_io_started_def is_write_in_progress_def)

lemma io_base_test_set_io_started:
  "fst (set_io_started (io_base_init :: int io_base)) \<and>
   is_io_started test_started \<and> \<not> is_write_in_progress test_started \<and>
   \<not> fst (set_io_started test_started)"
  by (simp add: test_started_def set_io_started_def io_base_init_def is_io_started_def
      is_write_in_progress_def)

lemma io_base_test_write_setup:
  "\<not> fst (start_write_setup (io_base_init :: int io_base) test_buf None) \<and>
   fst (start_write_setup test_started test_buf None) \<and>
   is_write_in_progress (snd (start_write_setup test_started test_buf None)) \<and>
   output_queue_size (get_output_queue_stats
     (snd (start_write_setup test_started test_buf None))) = 0 \<and>
   \<not> fst (start_write_setup (snd (start_write_setup test_started test_buf None)) test_buf None) \<and>
   is_write_in_progress
     (snd (start_write_setup (snd (start_write_setup test_started test_buf None)) test_buf None)) \<and>
   output_queue_size (get_output_queue_stats
     (snd (start_write_setup (snd (start_write_setup test_started test_buf None)) test_buf None))) = 1"
  by (simp add: test_started_def set_io_started_def io_base_init_def is_io_started_def
      is_write_in_progress_def start_write_setup_def add_element_def output_queue_init_def
      get_output_queue_stats_def get_queue_stats_def)

lemma io_base_test_many:
  "is_write_in_progress (repeat 20 (io_step (Start_write_setup test_buf test_endp)) test_started) \<and>
   output_queue_size (get_output_queue_stats
     (repeat 20 (io_step (Start_write_setup test_buf test_endp)) test_started)) = 20 - 1"
  by code_simp

lemma io_base_test_two_less:
  "get_output_queue_stats
     (repeat (20 - 2) (io_step Get_next_element)
        (repeat 20 (io_step (Start_write_setup test_buf test_endp)) test_started)) =
     \<lparr>output_queue_size = 1, bytes_in_output_queue = length test_buf\<rparr> \<and>
   fst (drain 2 (repeat (20 - 2) (io_step Get_next_element)
        (repeat 20 (io_step (Start_write_setup test_buf test_endp)) test_started))) =
     [Some (test_buf, test_endp), None] \<and>
   get_output_queue_stats (snd (drain 1 (repeat (20 - 2) (io_step Get_next_element)
        (repeat 20 (io_step (Start_write_setup test_buf test_endp)) test_started)))) =
     \<lparr>output_queue_size = 0, bytes_in_output_queue = 0\<rparr> \<and>
   is_write_in_progress (snd (drain 1 (repeat (20 - 2) (io_step Get_next_element)
        (repeat 20 (io_step (Start_write_setup test_buf test_endp)) test_started)))) \<and>
   \<not> is_write_in_progress (snd (drain 2 (repeat (20 - 2) (io_step Get_next_element)
        (repeat 20 (io_step (Start_write_setup test_buf test_endp)) test_started))))"
  by code_simp

lemma get_next_element_empty:
  "fifo (output_queue h) = [] \<Longrightarrow> get_next_element h = (None, h\<lparr>write_in_progress := False\<rparr>)"
  by (simp add: get_next_element_def outq_get_next_element_def)

lemma get_next_element_head:
  "fifo (output_queue h) = el # els \<Longrightarrow>
     get_next_element h =
       (Some el, h\<lparr>output_queue :=
          \<lparr>fifo = els, byte_counter = byte_counter (output_queue h) - length (fst el)\<rparr>\<rparr>)"
  by (simp add: get_next_element_def outq_get_next_element_def)

lemma start_write_setup_queues:
  "io_started h \<Longrightarrow> write_in_progress h \<Longrightarrow>
     start_write_setup h buf endp =
       (False, h\<lparr>output_queue :=
          \<lparr>fifo = fifo (output_queue h) @ [(buf, endp)],
           byte_counter = byte_counter (output_queue h) + length buf\<rparr>\<rparr>)"
  by (simp add: start_write_setup_def add_element_def)

text \<open>
  Both invariants hold of a new handler and are kept by every call.
\<close>

lemma write_queue_inv_step: "write_queue_inv h \<Longrightarrow> write_queue_inv (io_step c h)"
proof (cases c)
  case Get_next_element
  assume "write_queue_inv h"
  then show ?thesis using Get_next_element
    by (cases "fifo (output_queue h)")
      (simp_all add: write_queue_inv_def get_next_element_empty get_next_element_head)
qed (simp_all add: write_queue_inv_def set_io_started_def set_io_stopped_def
       start_write_setup_def add_element_def)

lemma byte_counter_inv_step: "byte_counter_inv h \<Longrightarrow> byte_counter_inv (io_step c h)"
proof (cases c)
  case Get_next_element
  assume "byte_counter_inv h"
  then show ?thesis using Get_next_element
    by (cases "fifo (output_queue h)")
      (simp_all add: byte_counter_inv_def queued_bytes_def get_next_element_empty
        get_next_element_head)
qed (simp_all add: byte_counter_inv_def queued_bytes_def set_io_started_def set_io_stopped_def
       start_write_setup_def add_element_def)

lemma write_queue_inv_run: "write_queue_inv h \<Longrightarrow> write_queue_inv (io_run cs h)"
  by (induction cs arbitrary: h) (simp_all add: write_queue_inv_step)

lemma byte_counter_inv_run: "byte_counter_inv h \<Longrightarrow> byte_counter_inv (io_run cs h)"
  by (induction cs arbitrary: h) (simp_all add: byte_counter_inv_step)

lemma write_queue_inv_init: "write_queue_inv io_base_init"
  by (simp add: write_queue_inv_def io_base_init_def output_queue_init_def)

lemma byte_counter_inv_init: "byte_counter_inv io_base_init"
  by (simp add: byte_counter_inv_def io_base_init_def output_queue_init_def queued_bytes_def)

lemma repeat_io_run: "repeat n (io_step c) h = io_run (replicate n c) h"
  by (induction n arbitrary: h) simp_all

text \<open>
  Claim C2. \<open>start_write_setup\<close> on a handler that is not started returns false and
  leaves the handler as it was. On a started handler with no write in progress it
  returns true, sets \<open>write_in_progress\<close> and leaves the output queue as it was. On a
  started handler with a write in progress it returns false and appends the buffer and
  endpoint to the output queue, which grows by exactly one element.
\<close>

theorem start_write_setup_cases:
  "(\<not> io_started h \<longrightarrow> start_write_setup h buf endp = (False, h)) \<and>
   (io_started h \<and> \<not> write_in_progress h \<longrightarrow>
      fst (start_write_setup h buf endp) = True \<and>
      write_in_progress (snd (start_write_setup h buf endp)) \<and>
      io_started (snd (start_write_setup h buf endp)) \<and>
      output_queue (snd (start_write_setup h buf endp)) = output_queue h) \<and>
   (io_started h \<and> write_in_progress h \<longrightarrow>
      fst (start_write_setup h buf endp) = False \<and>
      write_in_progress (snd (start_write_setup h buf endp)) \<and>
      io_started (snd (start_write_setup h buf endp)) \<and>
      fifo (output_queue (snd (start_write_setup h buf endp))) =
        fifo (output_queue h) @ [(buf, endp)] \<and>
      output_queue_size (get_output_queue_stats (snd (start_write_setup h buf endp))) =
        output_queue_size (get_output_queue_stats h) + 1)"
  by (simp add: start_write_setup_def add_element_def get_output_queue_stats_def
      get_queue_stats_def)

text \<open>
  The theorem at a new handler, at the started handler of the test scenario, and at
  that handler with a write in progress.
\<close>

lemma test_started_eq:
  "test_started = \<lparr>io_started = True, write_in_progress = False,
     output_queue = \<lparr>fifo = [], byte_counter = 0\<rparr>\<rparr>"
  by (simp add: test_started_def set_io_started_def io_base_init_def output_queue_init_def)

lemma test_started_run: "test_started = io_run [Set_io_started] io_base_init"
  by (simp add: test_started_def)

theorem start_write_setup_cases_witness:
  "start_write_setup (io_base_init :: int io_base) test_buf test_endp = (False, io_base_init) \<and>
   fst (start_write_setup test_started test_buf test_endp) = True \<and>
   write_in_progress (snd (start_write_setup test_started test_buf test_endp)) \<and>
   output_queue (snd (start_write_setup test_started test_buf test_endp)) =
     output_queue test_started \<and>
   fst (start_write_setup (test_started\<lparr>write_in_progress := True\<rparr>) test_buf test_endp) = False \<and>
   fifo (output_queue (snd (start_write_setup (test_started\<lparr>write_in_progress := True\<rparr>)
     test_buf test_endp))) = [(test_buf, test_endp)]"
proof -
  have a: "\<not> io_started (io_base_init :: int io_base)" by (simp add: io_base_init_def)
  have b: "io_started test_started \<and> \<not> write_in_progress test_started"
    by (simp add: test_started_eq)
  have c: "io_started (test_started\<lparr>write_in_progress := True\<rparr>) \<and>
           write_in_progress (test_started\<lparr>write_in_progress := True\<rparr>)"
    by (simp add: test_started_eq)
  have d: "fifo (output_queue (test_started\<lparr>write_in_progress := True\<rparr>)) = []"
    by (simp add: test_started_eq)
  from start_write_setup_cases [of "io_base_init :: int io_base" test_buf test_endp] a
  have 1: "start_write_setup (io_base_init :: int io_base) test_buf test_endp = (False, io_base_init)"
    by blast
  from start_write_setup_cases [of test_started test_buf test_endp] b
  have 2: "fst (start_write_setup test_started test_buf test_endp) = True \<and>
   write_in_progress (snd (start_write_setup test_started test_buf test_endp)) \<and>
   output_queue (snd (start_write_setup test_started test_buf test_endp)) =
     output_queue test_started" by blast
  from start_write_setup_cases [of "test_started\<lparr>write_in_progress := True\<rparr>" test_buf test_endp] c
  have 3: "fst (start_write_setup (test_started\<lparr>write_in_progress := True\<rparr>) test_buf test_endp) = False \<and>
   fifo (output_queue (snd (start_write_setup (test_started\<lparr>write_in_progress := True\<rparr>)
     test_buf test_endp))) = fifo (output_queue (test_started\<lparr>write_in_progress := True\<rparr>)) @ [(test_buf, test_endp)]"
    by blast
  from 1 2 3 show ?thesis unfolding d by simp
qed

text \<open>
  Claim C4. After every sequence of calls on a new handler, a false
  \<open>write_in_progress\<close> implies an empty output queue. The sequence is arbitrary, so the
  statement holds after each of its calls.
\<close>

theorem write_queue_invariant:
  "\<not> write_in_progress (io_run cs io_base_init) \<longrightarrow>
     fifo (output_queue (io_run cs io_base_init)) = [] \<and>
     output_queue_size (get_output_queue_stats (io_run cs io_base_init)) = 0"
  using write_queue_inv_run [OF write_queue_inv_init, of cs]
  by (auto simp add: write_queue_inv_def get_output_queue_stats_def get_queue_stats_def)

lemma run_two_writes_two_gets:
  "io_run [Set_io_started, Start_write_setup test_buf test_endp,
      Start_write_setup test_buf test_endp, Get_next_element, Get_next_element] io_base_init =
   \<lparr>io_started = True, write_in_progress = False,
     output_queue = \<lparr>fifo = [], byte_counter = 0\<rparr>\<rparr>"
  by (simp add: set_io_started_def io_base_init_def output_queue_init_def start_write_setup_def
      add_element_def get_next_element_def outq_get_next_element_def test_buf_def)

theorem write_queue_invariant_witness:
  "\<not> write_in_progress (io_run [Set_io_started, Start_write_setup test_buf test_endp,
      Start_write_setup test_buf test_endp, Get_next_element, Get_next_element] io_base_init) \<and>
   fifo (output_queue (io_run [Set_io_started, Start_write_setup test_buf test_endp,
      Start_write_setup test_buf test_endp, Get_next_element, Get_next_element] io_base_init)) = []"
proof -
  let ?cs = "[Set_io_started, Start_write_setup test_buf test_endp,
      Start_write_setup test_buf test_endp, Get_next_element, Get_next_element]"
  have a: "\<not> write_in_progress (io_run ?cs io_base_init)"
    by (subst run_two_writes_two_gets) simp
  from write_queue_invariant [of ?cs] a show ?thesis by blast
qed

text \<open>
  Elements leave the queue in the order in which they entered it.
\<close>

lemma get_next_element_cases:
  "(fifo (output_queue (io_run cs io_base_init)) = [] \<longrightarrow>
      fst (get_next_element (io_run cs io_base_init)) = None \<and>
      \<not> write_in_progress (snd (get_next_element (io_run cs io_base_init))) \<and>
      fifo (output_queue (snd (get_next_element (io_run cs io_base_init)))) = []) \<and>
   (\<forall>el els. fifo (output_queue (io_run cs io_base_init)) = el # els \<longrightarrow>
      fst (get_next_element (io_run cs io_base_init)) = Some el \<and>
      fifo (output_queue (snd (get_next_element (io_run cs io_base_init)))) = els \<and>
      write_in_progress (snd (get_next_element (io_run cs io_base_init))))"
proof -
  let ?h = "io_run cs io_base_init"
  have inv: "write_in_progress ?h \<or> fifo (output_queue ?h) = []"
    using write_queue_inv_run [OF write_queue_inv_init, of cs]
    by (simp add: write_queue_inv_def)
  show ?thesis
  proof (cases "fifo (output_queue ?h)")
    case Nil
    then show ?thesis by (simp add: get_next_element_empty)
  next
    case (Cons el els)
    with inv have "write_in_progress ?h" by simp
    with Cons show ?thesis by (simp add: get_next_element_head)
  qed
qed

lemma drain_all:
  "fst (drain (length (fifo (output_queue h))) h) = map Some (fifo (output_queue h))"
proof (induction "fifo (output_queue h)" arbitrary: h)
  case Nil
  then show ?case by simp
next
  case (Cons el els)
  from Cons.hyps(2) have q: "fifo (output_queue h) = el # els" by simp
  let ?h' = "snd (get_next_element h)"
  from q have "els = fifo (output_queue ?h')" by (simp add: get_next_element_head)
  from Cons.hyps(1) [OF this] q show ?case by (simp add: get_next_element_head)
qed

lemma run_writes_queued:
  "io_started h \<Longrightarrow> write_in_progress h \<Longrightarrow>
     fifo (output_queue (io_run (map (\<lambda>el. Start_write_setup (fst el) (snd el)) xs) h)) =
       fifo (output_queue h) @ xs"
proof (induction xs arbitrary: h)
  case Nil
  then show ?case by simp
next
  case (Cons x xs)
  let ?h' = "snd (start_write_setup h (fst x) (snd x))"
  from Cons.prems have "io_started ?h'" "write_in_progress ?h'"
    "fifo (output_queue ?h') = fifo (output_queue h) @ [x]"
    by (simp_all add: start_write_setup_queues)
  with Cons.IH [of ?h'] show ?case by simp
qed

lemma fifo_order:
  assumes "io_started h" and "write_in_progress h"
  shows "fst (drain (length (fifo (output_queue h)) + length xs)
              (io_run (map (\<lambda>el. Start_write_setup (fst el) (snd el)) xs) h)) =
         map Some (fifo (output_queue h) @ xs)"
  using drain_all [of "io_run (map (\<lambda>el. Start_write_setup (fst el) (snd el)) xs) h"]
    run_writes_queued [OF assms, of xs]
  by simp

text \<open>
  Claim C3. On a handler in any state that calls on a new handler lead to:
  \<open>get_next_element\<close> on an empty output queue returns an empty optional and leaves
  \<open>write_in_progress\<close> false; on a non-empty queue it returns the head, removes it from
  the queue and leaves \<open>write_in_progress\<close> true. The elements come back in the order
  in which \<open>start_write_setup\<close> queued them: when elements \<open>xs\<close> are queued behind those
  already waiting, successive calls return the waiting elements and then \<open>xs\<close>, each the
  pair of buffer and endpoint that was queued.
\<close>

theorem get_next_element_fifo:
  "(fifo (output_queue (io_run cs io_base_init)) = [] \<longrightarrow>
      fst (get_next_element (io_run cs io_base_init)) = None \<and>
      \<not> write_in_progress (snd (get_next_element (io_run cs io_base_init))) \<and>
      fifo (output_queue (snd (get_next_element (io_run cs io_base_init)))) = []) \<and>
   (\<forall>el els. fifo (output_queue (io_run cs io_base_init)) = el # els \<longrightarrow>
      fst (get_next_element (io_run cs io_base_init)) = Some el \<and>
      fifo (output_queue (snd (get_next_element (io_run cs io_base_init)))) = els \<and>
      write_in_progress (snd (get_next_element (io_run cs io_base_init)))) \<and>
   (io_started (io_run cs io_base_init) \<and> write_in_progress (io_run cs io_base_init) \<longrightarrow>
      fst (drain (length (fifo (output_queue (io_run cs io_base_init))) + length xs)
             (io_run (map (\<lambda>el. Start_write_setup (fst el) (snd el)) xs)
                (io_run cs io_base_init))) =
        map Some (fifo (output_queue (io_run cs io_base_init)) @ xs))"
  using get_next_element_cases [of cs] fifo_order [of "io_run cs io_base_init" xs]
  by blast

lemma run_one_write:
  "io_run [Set_io_started, Start_write_setup test_buf test_endp] io_base_init =
   \<lparr>io_started = True, write_in_progress = True,
     output_queue = \<lparr>fifo = [], byte_counter = 0\<rparr>\<rparr>"
  by (simp add: set_io_started_def io_base_init_def output_queue_init_def start_write_setup_def)

lemma run_two_writes:
  "io_run [Set_io_started, Start_write_setup test_buf test_endp,
      Start_write_setup [0x41] None] io_base_init =
   \<lparr>io_started = True, write_in_progress = True,
     output_queue = \<lparr>fifo = [([0x41], None)], byte_counter = 1\<rparr>\<rparr>"
  by (simp add: set_io_started_def io_base_init_def output_queue_init_def start_write_setup_def
      add_element_def)

theorem get_next_element_fifo_witness:
  "fst (get_next_element
     (io_run [Set_io_started, Start_write_setup test_buf test_endp] io_base_init)) = None \<and>
   \<not> write_in_progress (snd (get_next_element
     (io_run [Set_io_started, Start_write_setup test_buf test_endp] io_base_init))) \<and>
   fst (get_next_element
     (io_run [Set_io_started, Start_write_setup test_buf test_endp,
        Start_write_setup [0x41] None] io_base_init)) = Some ([0x41], None) \<and>
   write_in_progress (snd (get_next_element
     (io_run [Set_io_started, Start_write_setup test_buf test_endp,
        Start_write_setup [0x41] None] io_base_init))) \<and>
   fst (drain 3 (io_run [Start_write_setup test_buf test_endp, Start_write_setup [0x42] None]
     (io_run [Set_io_started, Start_write_setup test_buf test_endp,
        Start_write_setup [0x41] None] io_base_init))) =
     [Some ([0x41], None), Some (test_buf, test_endp), Some ([0x42], None)]"
proof -
  let ?c1 = "[Set_io_started, Start_write_setup test_buf test_endp]"
  let ?c2 = "[Set_io_started, Start_write_setup test_buf test_endp, Start_write_setup [0x41] None]"
  have e1: "fifo (output_queue (io_run ?c1 io_base_init)) = []"
    by (subst run_one_write) simp
  have e2: "fifo (output_queue (io_run ?c2 io_base_init)) = [([0x41], None)]"
    by (subst run_two_writes) simp
  have s2: "io_started (io_run ?c2 io_base_init) \<and> write_in_progress (io_run ?c2 io_base_init)"
    by (subst run_two_writes, subst run_two_writes) simp
  from get_next_element_fifo [of ?c1 "[]"] e1
  have a: "fst (get_next_element (io_run ?c1 io_base_init)) = None \<and>
      \<not> write_in_progress (snd (get_next_element (io_run ?c1 io_base_init)))"
    by blast
  from get_next_element_fifo [of ?c2 "[(test_buf, test_endp), ([0x42], None)]"] e2 s2
  have b: "fst (get_next_element (io_run ?c2 io_base_init)) = Some ([0x41], None) \<and>
      write_in_progress (snd (get_next_element (io_run ?c2 io_base_init)))"
    and c: "fst (drain (length (fifo (output_queue (io_run ?c2 io_base_init))) +
                length [(test_buf, test_endp), ([0x42], None)])
             (io_run (map (\<lambda>el. Start_write_setup (fst el) (snd el))
                  [(test_buf, test_endp), ([0x42], None)])
                (io_run ?c2 io_base_init))) =
        map Some (fifo (output_queue (io_run ?c2 io_base_init)) @
          [(test_buf, test_endp), ([0x42], None)])"
    by blast+
  have n: "length [([0x41 :: 8 word], None :: int option)] +
                length [(test_buf, test_endp), ([0x42 :: 8 word], None :: int option)] = 3"
    by simp
  have m: "map (\<lambda>el. Start_write_setup (fst el) (snd el))
                  [(test_buf, test_endp), ([0x42], None)] =
           [Start_write_setup test_buf test_endp, Start_write_setup [0x42] None]"
    by simp
  from c have c': "fst (drain 3 (io_run [Start_write_setup test_buf test_endp, Start_write_setup [0x42] None]
     (io_run ?c2 io_base_init))) =
     [Some ([0x41], None), Some (test_buf, test_endp), Some ([0x42], None)]"
    unfolding m e2 n by (simp only: list.map append.simps)
  from a b c' show ?thesis by blast
qed

text \<open>
  Repeated writes on a handler with a write in progress, and repeated reads of a queue
  of equal elements.
\<close>

lemma repeat_writes:
  assumes "io_started h" and "write_in_progress h"
  shows "repeat n (io_step (Start_write_setup buf endp)) h =
     h\<lparr>output_queue :=
        \<lparr>fifo = fifo (output_queue h) @ replicate n (buf, endp),
         byte_counter = byte_counter (output_queue h) + n * length buf\<rparr>\<rparr>"
  using assms
proof (induction n arbitrary: h)
  case 0
  then show ?case by simp
next
  case (Suc n)
  define h' where "h' = io_step (Start_write_setup buf endp) h"
  from Suc.prems have h': "h' = h\<lparr>output_queue :=
          \<lparr>fifo = fifo (output_queue h) @ [(buf, endp)],
           byte_counter = byte_counter (output_queue h) + length buf\<rparr>\<rparr>"
    by (simp add: h'_def start_write_setup_queues)
  with Suc.prems have st: "io_started h'" "write_in_progress h'" by simp_all
  have "repeat (Suc n) (io_step (Start_write_setup buf endp)) h =
        repeat n (io_step (Start_write_setup buf endp)) h'"
    by (simp only: repeat.simps h'_def)
  also have "\<dots> = h'\<lparr>output_queue :=
        \<lparr>fifo = fifo (output_queue h') @ replicate n (buf, endp),
         byte_counter = byte_counter (output_queue h') + n * length buf\<rparr>\<rparr>"
    by (rule Suc.IH [OF st])
  also have "\<dots> = h\<lparr>output_queue :=
        \<lparr>fifo = fifo (output_queue h) @ replicate (Suc n) (buf, endp),
         byte_counter = byte_counter (output_queue h) + Suc n * length buf\<rparr>\<rparr>"
    by (simp add: h')
  finally show ?case .
qed

lemma repeat_gets:
  assumes "fifo (output_queue h) = replicate k (buf, endp)"
    and "byte_counter (output_queue h) = k * length buf"
  shows "fifo (output_queue (repeat m (io_step Get_next_element) h)) = replicate (k - m) (buf, endp) \<and>
         byte_counter (output_queue (repeat m (io_step Get_next_element) h)) = (k - m) * length buf"
  using assms
proof (induction m arbitrary: h k)
  case 0
  then show ?case by simp
next
  case (Suc m)
  show ?case
  proof (cases k)
    case 0
    with Suc.prems have e: "fifo (output_queue h) = []" by simp
    let ?h' = "io_step Get_next_element h"
    from e Suc.prems 0 have "fifo (output_queue ?h') = replicate 0 (buf, endp)"
      "byte_counter (output_queue ?h') = 0 * length buf"
      by (simp_all add: get_next_element_empty)
    from Suc.IH [OF this] 0 show ?thesis by simp
  next
    case (Suc k')
    with Suc.prems have e: "fifo (output_queue h) = (buf, endp) # replicate k' (buf, endp)" by simp
    let ?h' = "io_step Get_next_element h"
    from e Suc.prems Suc have "fifo (output_queue ?h') = replicate k' (buf, endp)"
      "byte_counter (output_queue ?h') = k' * length buf"
      by (simp_all add: get_next_element_head)
    from Suc.IH [OF this] Suc show ?thesis by simp
  qed
qed

lemma writes_then_gets:
  assumes st: "io_started h" and nw: "\<not> write_in_progress h"
    and e: "fifo (output_queue h) = []" and b: "byte_counter (output_queue h) = 0"
  shows "get_output_queue_stats
           (repeat m (io_step Get_next_element)
              (repeat (Suc n) (io_step (Start_write_setup buf endp)) h)) =
         \<lparr>output_queue_size = n - m, bytes_in_output_queue = (n - m) * length buf\<rparr>"
proof -
  let ?h1 = "io_step (Start_write_setup buf endp) h"
  from st nw have h1: "?h1 = h\<lparr>write_in_progress := True\<rparr>"
    by (simp add: start_write_setup_def)
  with st have "io_started ?h1" "write_in_progress ?h1" by simp_all
  from repeat_writes [OF this, of n buf endp] h1 e b
  have "fifo (output_queue (repeat n (io_step (Start_write_setup buf endp)) ?h1)) = replicate n (buf, endp)"
    "byte_counter (output_queue (repeat n (io_step (Start_write_setup buf endp)) ?h1)) = n * length buf"
    by simp_all
  from repeat_gets [OF this, of m] show ?thesis
    by (simp add: get_output_queue_stats_def get_queue_stats_def)
qed

text \<open>
  The first call of \<open>start_write_setup\<close> initiates the write, that is, returns true,
  exactly on a started handler with no write in progress.
\<close>

lemma first_call_initiates:
  "fst (start_write_setup h buf endp) = (io_started h \<and> \<not> write_in_progress h)"
  by (simp add: start_write_setup_def)

text \<open>
  Claim C5. On a handler with \<open>io_started\<close> true on which the first call initiates the
  write: for \<open>N \<ge> 1\<close> and \<open>M \<le> N\<close>, \<open>N\<close> calls of \<open>start_write_setup\<close> with one buffer
  and then \<open>M\<close> calls of \<open>get_next_element\<close> leave exactly \<open>max(0, N - 1 - M)\<close> elements
  in the output queue, and the byte count is that number times the size of the buffer.
  At every point, after any \<open>n\<close> such writes and \<open>m\<close> such reads, the byte count
  reported by \<open>get_output_queue_stats\<close> is the sum of the sizes of the queued buffers.
  The handler is in any state that calls on a new handler lead to.
\<close>

theorem queue_accounting:
  "io_started (io_run cs io_base_init) \<and>
   fst (start_write_setup (io_run cs io_base_init) buf endp) \<and>
   1 \<le> N \<and> M \<le> N \<longrightarrow>
     int (output_queue_size (get_output_queue_stats
       (repeat M (io_step Get_next_element)
          (repeat N (io_step (Start_write_setup buf endp)) (io_run cs io_base_init))))) =
       max 0 (int N - 1 - int M) \<and>
     int (bytes_in_output_queue (get_output_queue_stats
       (repeat M (io_step Get_next_element)
          (repeat N (io_step (Start_write_setup buf endp)) (io_run cs io_base_init))))) =
       max 0 (int N - 1 - int M) * int (length buf) \<and>
     bytes_in_output_queue (get_output_queue_stats
       (repeat m (io_step Get_next_element)
          (repeat n (io_step (Start_write_setup buf endp)) (io_run cs io_base_init)))) =
       queued_bytes (fifo (output_queue
         (repeat m (io_step Get_next_element)
            (repeat n (io_step (Start_write_setup buf endp)) (io_run cs io_base_init)))))"
proof (intro impI)
  let ?h = "io_run cs io_base_init"
  let ?w = "io_step (Start_write_setup buf endp)"
  let ?g = "io_step Get_next_element"
  assume a: "io_started ?h \<and> fst (start_write_setup ?h buf endp) \<and> 1 \<le> N \<and> M \<le> N"
  then obtain n' where N: "N = Suc n'" by (cases N) auto
  from a have st: "io_started ?h" and nw: "\<not> write_in_progress ?h"
    by (simp_all add: first_call_initiates)
  have wq: "write_queue_inv ?h" by (rule write_queue_inv_run [OF write_queue_inv_init])
  have bc: "byte_counter_inv ?h" by (rule byte_counter_inv_run [OF byte_counter_inv_init])
  from nw wq have e: "fifo (output_queue ?h) = []" by (simp add: write_queue_inv_def)
  with bc have b: "byte_counter (output_queue ?h) = 0"
    by (simp add: byte_counter_inv_def queued_bytes_def)
  have s: "get_output_queue_stats (repeat M ?g (repeat N ?w ?h)) =
         \<lparr>output_queue_size = n' - M, bytes_in_output_queue = (n' - M) * length buf\<rparr>"
    unfolding N by (rule writes_then_gets [OF st nw e b])
  have k: "int (n' - M) = max 0 (int N - 1 - int M)"
    using N by (simp add: max_def)
  have "byte_counter_inv (repeat m ?g (repeat n ?w ?h))"
    unfolding repeat_io_run by (intro byte_counter_inv_run bc)
  then have i: "bytes_in_output_queue (get_output_queue_stats (repeat m ?g (repeat n ?w ?h))) =
       queued_bytes (fifo (output_queue (repeat m ?g (repeat n ?w ?h))))"
    by (simp add: byte_counter_inv_def get_output_queue_stats_def get_queue_stats_def)
  from s k have c1: "int (output_queue_size (get_output_queue_stats
       (repeat M ?g (repeat N ?w ?h)))) = max 0 (int N - 1 - int M)"
    by simp
  from s have "int (bytes_in_output_queue (get_output_queue_stats
       (repeat M ?g (repeat N ?w ?h)))) = int (n' - M) * int (length buf)"
    by simp
  with k have c2: "int (bytes_in_output_queue (get_output_queue_stats
       (repeat M ?g (repeat N ?w ?h)))) = max 0 (int N - 1 - int M) * int (length buf)"
    by simp
  from c1 c2 i show "int (output_queue_size (get_output_queue_stats
       (repeat M ?g (repeat N ?w ?h)))) = max 0 (int N - 1 - int M) \<and>
     int (bytes_in_output_queue (get_output_queue_stats
       (repeat M ?g (repeat N ?w ?h)))) = max 0 (int N - 1 - int M) * int (length buf) \<and>
     bytes_in_output_queue (get_output_queue_stats (repeat m ?g (repeat n ?w ?h))) =
       queued_bytes (fifo (output_queue (repeat m ?g (repeat n ?w ?h))))"
    by blast
qed

text \<open>
  The theorem on the numbers of the test scenario: twenty buffers of five bytes give 19
  elements and 95 bytes; after eighteen reads, one element and 5 bytes; after twenty
  reads, none.
\<close>

theorem queue_accounting_witness:
  "output_queue_size (get_output_queue_stats
     (repeat 0 (io_step Get_next_element)
        (repeat 20 (io_step (Start_write_setup test_buf test_endp)) test_started))) = 19 \<and>
   bytes_in_output_queue (get_output_queue_stats
     (repeat 0 (io_step Get_next_element)
        (repeat 20 (io_step (Start_write_setup test_buf test_endp)) test_started))) = 95 \<and>
   output_queue_size (get_output_queue_stats
     (repeat 18 (io_step Get_next_element)
        (repeat 20 (io_step (Start_write_setup test_buf test_endp)) test_started))) = 1 \<and>
   bytes_in_output_queue (get_output_queue_stats
     (repeat 18 (io_step Get_next_element)
        (repeat 20 (io_step (Start_write_setup test_buf test_endp)) test_started))) = 5 \<and>
   output_queue_size (get_output_queue_stats
     (repeat 20 (io_step Get_next_element)
        (repeat 20 (io_step (Start_write_setup test_buf test_endp)) test_started))) = 0 \<and>
   bytes_in_output_queue (get_output_queue_stats
     (repeat 20 (io_step Get_next_element)
        (repeat 20 (io_step (Start_write_setup test_buf test_endp)) test_started))) = 0"
proof -
  let ?w = "io_step (Start_write_setup test_buf test_endp)"
  let ?g = "io_step Get_next_element"
  have h: "io_started (io_run [Set_io_started] io_base_init :: int io_base) \<and>
           fst (start_write_setup (io_run [Set_io_started] io_base_init) test_buf test_endp)"
    by (simp add: set_io_started_def io_base_init_def start_write_setup_def)
  have l: "int (length test_buf) = 5" by (simp add: test_buf_def)
  from queue_accounting [where cs = "[Set_io_started]" and N = 20 and M = 0 and n = 0 and m = 0
      and buf = test_buf and endp = test_endp] h
  have a: "int (output_queue_size (get_output_queue_stats
             (repeat 0 ?g (repeat 20 ?w test_started)))) = max 0 (int 20 - 1 - int 0) \<and>
           int (bytes_in_output_queue (get_output_queue_stats
             (repeat 0 ?g (repeat 20 ?w test_started)))) =
             max 0 (int 20 - 1 - int 0) * int (length test_buf)"
    unfolding test_started_run by simp
  from queue_accounting [where cs = "[Set_io_started]" and N = 20 and M = 18 and n = 0 and m = 0
      and buf = test_buf and endp = test_endp] h
  have b: "int (output_queue_size (get_output_queue_stats
             (repeat 18 ?g (repeat 20 ?w test_started)))) = max 0 (int 20 - 1 - int 18) \<and>
           int (bytes_in_output_queue (get_output_queue_stats
             (repeat 18 ?g (repeat 20 ?w test_started)))) =
             max 0 (int 20 - 1 - int 18) * int (length test_buf)"
    unfolding test_started_run by simp
  from queue_accounting [where cs = "[Set_io_started]" and N = 20 and M = 20 and n = 0 and m = 0
      and buf = test_buf and endp = test_endp] h
  have c: "int (output_queue_size (get_output_queue_stats
             (repeat 20 ?g (repeat 20 ?w test_started)))) = max 0 (int 20 - 1 - int 20) \<and>
           int (bytes_in_output_queue (get_output_queue_stats
             (repeat 20 ?g (repeat 20 ?w test_started)))) =
             max 0 (int 20 - 1 - int 20) * int (length test_buf)"
    unfolding test_started_run by simp
  from a b c show ?thesis unfolding l by simp
qed

end
